theory Spec2Isabelle
  imports Main "HOL-Library.Sublist" "HOL-Library.Monad_Syntax"
begin

section \<open>The highlight range merger of the command palette\<close>

text \<open>
  The component \<^verbatim>\<open>HighlightedText\<close> of the command palette takes a text and an optional
  list of inclusive index pairs, sorts the pairs by their start, merges overlapping or
  adjacent pairs and emits the text as a sequence of \<^verbatim>\<open><span>\<close> (plain) and \<^verbatim>\<open><mark>\<close>
  (highlighted) elements.

  A text is a list of code units of any type \<open>'c\<close>. The indices are integers: the
  numbers of the source are exact on the integers that an index can be, and no bound on
  them is modelled. A \<^verbatim>\<open>HighlightRange\<close> is the two-element array \<^verbatim>\<open>[start, end]\<close>,
  a pair here. The optional argument \<^verbatim>\<open>highlights\<close> is an \<open>option\<close>: \<open>None\<close> is
  \<^verbatim>\<open>undefined\<close>.
\<close>

subsection \<open>Data\<close>

type_synonym HighlightRange = "int \<times> int"

datatype 'c segment = Plain "'c list" | Highlighted "'c list"

fun content :: "'c segment \<Rightarrow> 'c list" where
  "content (Plain s) = s"
| "content (Highlighted s) = s"

fun is_highlighted :: "'c segment \<Rightarrow> bool" where
  "is_highlighted (Plain s) = False"
| "is_highlighted (Highlighted s) = True"

subsection \<open>String slicing\<close>

text \<open>
  \<^verbatim>\<open>String.prototype.slice(start, end)\<close> on integer arguments: a negative index counts
  from the end of the string, every index is clamped to \<open>0 .. length\<close>, and the result is
  empty when the resolved start is not below the resolved end. It never throws.
\<close>

definition relative_index :: "int \<Rightarrow> int \<Rightarrow> int" where
  "relative_index len i = (if i < 0 then max (len + i) 0 else min i len)"

definition slice :: "'c list \<Rightarrow> int \<Rightarrow> int \<Rightarrow> 'c list" where
  "slice text start endi =
     (let len = int (length text);
          from = relative_index len start;
          to = relative_index len endi
      in if from \<ge> to then [] else take (nat (to - from)) (drop (nat from) text))"

text \<open>\<^verbatim>\<open>text.slice(start)\<close>: the end defaults to the length of the string.\<close>

definition slice_from :: "'c list \<Rightarrow> int \<Rightarrow> 'c list" where
  "slice_from text start = slice text start (int (length text))"

subsection \<open>Sorting and the merge pass\<close>

text \<open>
  \<^verbatim>\<open>[...highlights].sort((a, b) => a[0] - b[0])\<close>: a stable sort by the start index.
\<close>

definition sortedHighlights :: "HighlightRange list \<Rightarrow> HighlightRange list" where
  "sortedHighlights highlights = sort_key fst highlights"

text \<open>
  The body of the \<^verbatim>\<open>for (const range of sortedHighlights)\<close> loop. The variable
  \<^verbatim>\<open>last\<close> is \<^verbatim>\<open>undefined\<close> when \<^verbatim>\<open>mergedHighlights\<close> is empty, and the test
  \<^verbatim>\<open>last &&\<close> guards the read of \<^verbatim>\<open>last[1]\<close>. The assignment \<^verbatim>\<open>last[1] = ...\<close>
  replaces the end of the last pair of \<^verbatim>\<open>mergedHighlights\<close>. The loop variable
  \<^verbatim>\<open>range\<close> is \<open>rng\<close> here.
\<close>

definition merge_step :: "HighlightRange list \<Rightarrow> HighlightRange \<Rightarrow> HighlightRange list" where
  "merge_step merged rng =
     (if merged \<noteq> [] \<and> fst rng \<le> snd (last merged) + 1
      then butlast merged @ [(fst (last merged), max (snd (last merged)) (snd rng))]
      else merged @ [rng])"

definition merge_pass :: "HighlightRange list \<Rightarrow> HighlightRange list" where
  "merge_pass sorted_ranges = foldl merge_step [] sorted_ranges"

definition mergedHighlights :: "HighlightRange list \<Rightarrow> HighlightRange list" where
  "mergedHighlights highlights = merge_pass (sortedHighlights highlights)"

subsection \<open>Emission of the segments\<close>

text \<open>
  The body of \<^verbatim>\<open>mergedHighlights.forEach\<close>; the state is the pair of \<^verbatim>\<open>parts\<close> and
  \<^verbatim>\<open>lastIndex\<close>.
\<close>

definition emit_step ::
  "'c list \<Rightarrow> 'c segment list \<times> int \<Rightarrow> HighlightRange \<Rightarrow> 'c segment list \<times> int" where
  "emit_step text st rng =
     (case st of (parts, lastIndex) \<Rightarrow>
      case rng of (start, endi) \<Rightarrow>
        let parts1 = (if start > lastIndex
                      then parts @ [Plain (slice text lastIndex start)] else parts);
            parts2 = parts1 @ [Highlighted (slice text start (endi + 1))]
        in (parts2, endi + 1))"

definition emit_parts :: "'c list \<Rightarrow> HighlightRange list \<Rightarrow> 'c segment list" where
  "emit_parts text merged =
     (case foldl (emit_step text) ([], 0) merged of (parts, lastIndex) \<Rightarrow>
        if lastIndex < int (length text)
        then parts @ [Plain (slice_from text lastIndex)] else parts)"

definition HighlightedText :: "'c list \<Rightarrow> HighlightRange list option \<Rightarrow> 'c segment list" where
  "HighlightedText text highlights =
     (case highlights of
        None \<Rightarrow> [Plain text]
      | Some hl \<Rightarrow>
          if length hl = 0 then [Plain text]
          else emit_parts text (mergedHighlights hl))"

subsection \<open>The index ranges of the segments\<close>

text \<open>
  Each element pushed to \<^verbatim>\<open>parts\<close> holds one call of \<^verbatim>\<open>text.slice\<close>. A span records
  the kind of the element and the two arguments of that call (the length of the text for
  the one-argument call); the early return shows the whole text, the span from \<open>0\<close> to
  the length. The functions below are \<open>emit_step\<close>, \<open>emit_parts\<close> and
  \<open>HighlightedText\<close> with the spans pushed in place of the sliced strings.
\<close>

datatype span = PlainSpan int int | HighlightedSpan int int

fun render :: "'c list \<Rightarrow> span \<Rightarrow> 'c segment" where
  "render text (PlainSpan a b) = Plain (slice text a b)"
| "render text (HighlightedSpan a b) = Highlighted (slice text a b)"

definition emit_step_spans :: "span list \<times> int \<Rightarrow> HighlightRange \<Rightarrow> span list \<times> int" where
  "emit_step_spans st rng =
     (case st of (parts, lastIndex) \<Rightarrow>
      case rng of (start, endi) \<Rightarrow>
        let parts1 = (if start > lastIndex
                      then parts @ [PlainSpan lastIndex start] else parts);
            parts2 = parts1 @ [HighlightedSpan start (endi + 1)]
        in (parts2, endi + 1))"

definition emit_spans :: "int \<Rightarrow> HighlightRange list \<Rightarrow> span list" where
  "emit_spans len merged =
     (case foldl emit_step_spans ([], 0) merged of (parts, lastIndex) \<Rightarrow>
        if lastIndex < len
        then parts @ [PlainSpan lastIndex len] else parts)"

definition HighlightedText_spans :: "int \<Rightarrow> HighlightRange list option \<Rightarrow> span list" where
  "HighlightedText_spans len highlights =
     (case highlights of
        None \<Rightarrow> [PlainSpan 0 len]
      | Some hl \<Rightarrow>
          if length hl = 0 then [PlainSpan 0 len]
          else emit_spans len (mergedHighlights hl))"

text \<open>The positions of the text that a call of \<^verbatim>\<open>slice\<close> reads.\<close>

fun span_indices :: "int \<Rightarrow> span \<Rightarrow> int set" where
  "span_indices len (PlainSpan a b) = {relative_index len a ..< relative_index len b}"
| "span_indices len (HighlightedSpan a b) = {relative_index len a ..< relative_index len b}"

fun span_lo :: "span \<Rightarrow> int" where
  "span_lo (PlainSpan a b) = a"
| "span_lo (HighlightedSpan a b) = a"

fun span_hi :: "span \<Rightarrow> int" where
  "span_hi (PlainSpan a b) = b"
| "span_hi (HighlightedSpan a b) = b"

fun span_highlighted :: "span \<Rightarrow> bool" where
  "span_highlighted (PlainSpan a b) = False"
| "span_highlighted (HighlightedSpan a b) = True"

text \<open>
  One span is followed by another when it ends where the other begins and the two are of
  different kinds.
\<close>

definition follows :: "span \<Rightarrow> span \<Rightarrow> bool" where
  "follows a b = (span_hi a = span_lo b \<and> span_highlighted a \<noteq> span_highlighted b)"

subsection \<open>The arrays as shared objects\<close>

text \<open>
  In the source the argument \<^verbatim>\<open>highlights\<close> is a reference to an array whose elements
  are references to two-element arrays, and the merge loop assigns to \<^verbatim>\<open>last[1]\<close>. The
  store below makes the sharing explicit: an address is an index into the list of
  allocated objects, a new object is put at the end, and an element of an array is the
  address of a range. On an element that is not a range, \<^verbatim>\<open>undefined\<close> for one, the
  source raises \<^verbatim>\<open>TypeError\<close> at \<^verbatim>\<open>range[0]\<close> or at \<^verbatim>\<open>[...range]\<close>; such a read gives
  \<open>None\<close> here, and \<open>None\<close> is the result of the component then.
\<close>

type_synonym addr = nat

datatype obj = RangeObj int int | ArrayObj "addr list"

type_synonym heap = "obj list"

definition read_range :: "heap \<Rightarrow> addr \<Rightarrow> HighlightRange option" where
  "read_range h a =
     (if a < length h
      then (case h ! a of RangeObj s e \<Rightarrow> Some (s, e) | ArrayObj refs \<Rightarrow> None)
      else None)"

definition read_array :: "heap \<Rightarrow> addr \<Rightarrow> addr list option" where
  "read_array h a =
     (if a < length h
      then (case h ! a of RangeObj s e \<Rightarrow> None | ArrayObj refs \<Rightarrow> Some refs)
      else None)"

fun read_ranges :: "heap \<Rightarrow> addr list \<Rightarrow> HighlightRange list option" where
  "read_ranges h [] = Some []"
| "read_ranges h (a # as) =
     do { r \<leftarrow> read_range h a; rs \<leftarrow> read_ranges h as; Some (r # rs) }"

definition alloc :: "heap \<Rightarrow> obj \<Rightarrow> addr \<times> heap" where
  "alloc h ob = (length h, h @ [ob])"

text \<open>
  \<^verbatim>\<open>[...highlights].sort((a, b) => a[0] - b[0])\<close>: the copy is a new array of the same
  references, and the sort reorders the copy by the starts it reads through them. With an
  element that is not a range the source raises in the comparator or, at the latest, in
  the merge loop, which visits every element; the model stops at the sort.
\<close>

definition sort_copy :: "heap \<Rightarrow> addr list \<Rightarrow> (addr \<times> heap) option" where
  "sort_copy h refs =
     (if list_all (\<lambda>a. read_range h a \<noteq> None) refs
      then (case alloc h (ArrayObj refs) of (s, h1) \<Rightarrow>
              Some (s, h1[s := ArrayObj (sort_key (\<lambda>a. fst (the (read_range h1 a))) refs)]))
      else None)"

text \<open>
  The body of the merge loop on the store: \<open>m\<close> is the address of \<^verbatim>\<open>mergedHighlights\<close>
  and \<open>rng\<close> the reference held by the loop variable. The assignment to \<^verbatim>\<open>last[1]\<close>
  updates the object that the last element of \<^verbatim>\<open>mergedHighlights\<close> refers to;
  \<^verbatim>\<open>[...range]\<close> allocates a new range with the values of the old one.
\<close>

definition push_copy :: "addr \<Rightarrow> heap \<Rightarrow> addr list \<Rightarrow> HighlightRange \<Rightarrow> heap" where
  "push_copy m h merged r =
     (case alloc h (RangeObj (fst r) (snd r)) of (c, h1) \<Rightarrow> h1[m := ArrayObj (merged @ [c])])"

definition merge_step_heap :: "addr \<Rightarrow> heap \<Rightarrow> addr \<Rightarrow> heap option" where
  "merge_step_heap m h rng =
     do {
       merged \<leftarrow> read_array h m;
       r \<leftarrow> read_range h rng;
       if merged \<noteq> []
       then do {
         l \<leftarrow> read_range h (last merged);
         if fst r \<le> snd l + 1
         then Some (h[last merged := RangeObj (fst l) (max (snd l) (snd r))])
         else Some (push_copy m h merged r)
       }
       else Some (push_copy m h merged r)
     }"

fun merge_loop_heap :: "addr \<Rightarrow> heap \<Rightarrow> addr list \<Rightarrow> heap option" where
  "merge_loop_heap m h [] = Some h"
| "merge_loop_heap m h (rng # rest) =
     do { h' \<leftarrow> merge_step_heap m h rng; merge_loop_heap m h' rest }"

text \<open>
  The component on the store. The emission reads the merged ranges and builds \<^verbatim>\<open>parts\<close>,
  which is a new array that the component returns; it writes to no other object.
\<close>

definition HighlightedText_heap ::
  "heap \<Rightarrow> 'c list \<Rightarrow> addr option \<Rightarrow> ('c segment list \<times> heap) option" where
  "HighlightedText_heap h text highlights =
     (case highlights of
        None \<Rightarrow> Some ([Plain text], h)
      | Some a \<Rightarrow>
          do {
            refs \<leftarrow> read_array h a;
            if length refs = 0 then Some ([Plain text], h)
            else do {
              (s, h1) \<leftarrow> sort_copy h refs;
              sorted_refs \<leftarrow> read_array h1 s;
              (m, h2) \<leftarrow> Some (alloc h1 (ArrayObj []));
              h3 \<leftarrow> merge_loop_heap m h2 sorted_refs;
              merged_refs \<leftarrow> read_array h3 m;
              merged \<leftarrow> read_ranges h3 merged_refs;
              Some (emit_parts text merged, h3)
            }
          })"

text \<open>
  The ranges that a list of references stands for, and the state of the merge loop on the
  store: \<open>h0\<close> is the store at the call, \<open>m\<close> the address of \<^verbatim>\<open>mergedHighlights\<close> and
  \<open>ms\<close> its elements. The objects of \<open>h0\<close> are as they were, and the elements of
  \<^verbatim>\<open>mergedHighlights\<close> are distinct ranges allocated after \<open>m\<close>.
\<close>

definition abs_ranges :: "heap \<Rightarrow> addr list \<Rightarrow> HighlightRange list" where
  "abs_ranges h ms = map (\<lambda>c. the (read_range h c)) ms"

definition merge_inv :: "heap \<Rightarrow> addr \<Rightarrow> heap \<Rightarrow> addr list \<Rightarrow> bool" where
  "merge_inv h0 m h ms =
     (take (length h0) h = h0 \<and> length h0 \<le> m \<and> m < length h \<and> h ! m = ArrayObj ms
      \<and> distinct ms \<and> list_all (\<lambda>c. m < c \<and> c < length h \<and> read_range h c \<noteq> None) ms)"

subsection \<open>The algorithm as the specification words it\<close>

text \<open>
  The merge pass of the specification keeps a current merged range: a new range merges
  into it when its start is at most the current end plus one, and the merged end is the
  maximum of the two ends; otherwise the current range is finalized and the new range
  becomes the current one.
\<close>

fun spec_merge_from :: "HighlightRange \<Rightarrow> HighlightRange list \<Rightarrow> HighlightRange list" where
  "spec_merge_from current [] = [current]"
| "spec_merge_from current (new # rest) =
     (if fst new \<le> snd current + 1
      then spec_merge_from (fst current, max (snd current) (snd new)) rest
      else current # spec_merge_from new rest)"

fun spec_merge :: "HighlightRange list \<Rightarrow> HighlightRange list" where
  "spec_merge [] = []"
| "spec_merge (first # rest) = spec_merge_from first rest"

text \<open>
  The emission of the specification walks the merged ranges with a cursor: a plain
  segment from the cursor to the start of the range when the start is beyond the cursor,
  the highlighted segment of the range with its end included, the cursor moved to the end
  plus one; after the last range a plain segment from the cursor to the length of the
  text when the cursor is below the length.
\<close>

fun spec_emit :: "int \<Rightarrow> int \<Rightarrow> HighlightRange list \<Rightarrow> span list" where
  "spec_emit len cursor [] = (if cursor < len then [PlainSpan cursor len] else [])"
| "spec_emit len cursor (r # rest) =
     (if fst r > cursor then [PlainSpan cursor (fst r)] else [])
     @ HighlightedSpan (fst r) (snd r + 1) # spec_emit len (snd r + 1) rest"

subsection \<open>Properties of the ranges\<close>

text \<open>
  The invariant of the data model, \<open>0 \<le> start \<le> end < length\<close>, and its part that does
  not mention the text.
\<close>

definition range_ok :: "HighlightRange \<Rightarrow> bool" where
  "range_ok r = (0 \<le> fst r \<and> fst r \<le> snd r)"

definition range_in_text :: "'c list \<Rightarrow> HighlightRange \<Rightarrow> bool" where
  "range_in_text text r = (range_ok r \<and> snd r < int (length text))"

text \<open>The indices an inclusive range covers, and lists of ranges that share none.\<close>

definition range_indices :: "HighlightRange \<Rightarrow> int set" where
  "range_indices r = {fst r .. snd r}"

fun pairwise_disjoint :: "HighlightRange list \<Rightarrow> bool" where
  "pairwise_disjoint [] = True"
| "pairwise_disjoint (r # rs) =
     (list_all (\<lambda>q. range_indices r \<inter> range_indices q = {}) rs \<and> pairwise_disjoint rs)"

text \<open>
  Each range starts more than one index after the end of the range before it: the ranges
  are in increasing order, share no index and are not adjacent.
\<close>

fun separated :: "HighlightRange list \<Rightarrow> bool" where
  "separated [] = True"
| "separated [r] = True"
| "separated (r # q # rs) = (snd r + 1 < fst q \<and> separated (q # rs))"

text \<open>The ranges of the optional argument: none when it is undefined.\<close>

definition highlight_list :: "HighlightRange list option \<Rightarrow> HighlightRange list" where
  "highlight_list highlights = (case highlights of None \<Rightarrow> [] | Some hl \<Rightarrow> hl)"

section \<open>The loops as recursions\<close>

text \<open>
  The two loops of the source push to the end of an array. Read from the front, the merge
  loop is the recursion \<open>spec_merge_from\<close> on the current range and the emission loop is
  the recursion \<open>spec_emit\<close> on the cursor.
\<close>

lemma merge_step_snoc:
  "merge_step (init @ [cur]) r =
     (if fst r \<le> snd cur + 1 then init @ [(fst cur, max (snd cur) (snd r))]
      else (init @ [cur]) @ [r])"
  by (simp add: merge_step_def)

lemma foldl_merge_step:
  "foldl merge_step (init @ [cur]) rs = init @ spec_merge_from cur rs"
proof (induction rs arbitrary: init cur)
  case Nil
  show ?case by simp
next
  case (Cons r rs)
  show ?case
  proof (cases "fst r \<le> snd cur + 1")
    case True
    then show ?thesis
      using Cons.IH[of init "(fst cur, max (snd cur) (snd r))"]
      by (simp add: merge_step_snoc)
  next
    case False
    then show ?thesis
      using Cons.IH[of "init @ [cur]" r]
      by (simp add: merge_step_snoc)
  qed
qed

lemma merge_pass_spec: "merge_pass rs = spec_merge rs"
proof (cases rs)
  case Nil
  then show ?thesis by (simp add: merge_pass_def)
next
  case (Cons r rest)
  have "merge_step [] r = [] @ [r]" by (simp add: merge_step_def)
  then show ?thesis
    using Cons foldl_merge_step[of "[]" r rest] by (simp add: merge_pass_def)
qed

lemma emit_step_eq:
  "emit_step t (parts, c) r =
     (parts @ map (render t)
        ((if fst r > c then [PlainSpan c (fst r)] else [])
         @ [HighlightedSpan (fst r) (snd r + 1)]),
      snd r + 1)"
  by (cases r) (simp add: emit_step_def)

lemma foldl_emit_step:
  "(case foldl (emit_step t) (parts, c) ms of (ps, li) \<Rightarrow>
      if li < int (length t) then ps @ [Plain (slice_from t li)] else ps)
   = parts @ map (render t) (spec_emit (int (length t)) c ms)"
proof (induction ms arbitrary: parts c)
  case Nil
  show ?case by (simp add: slice_from_def)
next
  case (Cons r ms)
  show ?case
    unfolding foldl_Cons emit_step_eq Cons.IH by simp
qed

lemma emit_step_spans_eq:
  "emit_step_spans (parts, c) r =
     (parts @ (if fst r > c then [PlainSpan c (fst r)] else [])
      @ [HighlightedSpan (fst r) (snd r + 1)],
      snd r + 1)"
  by (cases r) (simp add: emit_step_spans_def)

lemma foldl_emit_step_spans:
  "(case foldl emit_step_spans (parts, c) ms of (ps, li) \<Rightarrow>
      if li < len then ps @ [PlainSpan li len] else ps)
   = parts @ spec_emit len c ms"
proof (induction ms arbitrary: parts c)
  case Nil
  show ?case by simp
next
  case (Cons r ms)
  show ?case
    unfolding foldl_Cons emit_step_spans_eq Cons.IH by simp
qed

lemma emit_parts_spec:
  "emit_parts t merged = map (render t) (spec_emit (int (length t)) 0 merged)"
  using foldl_emit_step[where parts="[]" and c=0 and ms=merged and t=t]
  by (simp add: emit_parts_def)

lemma emit_spans_spec: "emit_spans len merged = spec_emit len 0 merged"
  using foldl_emit_step_spans[where parts="[]" and c=0 and ms=merged and len=len]
  by (simp add: emit_spans_def)

lemma slice_whole: "slice t 0 (int (length t)) = t"
  by (simp add: slice_def relative_index_def)

lemma HighlightedText_render:
  "HighlightedText t highlights =
     map (render t) (HighlightedText_spans (int (length t)) highlights)"
  by (simp add: HighlightedText_def HighlightedText_spans_def emit_parts_spec
      emit_spans_spec slice_whole split: option.splits)

lemma mergedHighlights_spec: "mergedHighlights hl = spec_merge (sort_key fst hl)"
  by (simp add: mergedHighlights_def sortedHighlights_def merge_pass_spec)

lemma successively_nth:
  "successively P xs \<Longrightarrow> Suc i < length xs \<Longrightarrow> P (xs ! i) (xs ! Suc i)"
proof (induction P xs arbitrary: i rule: successively.induct)
  case (3 P x y xs)
  then show ?case by (cases i) auto
qed auto

section \<open>Invariants of the merge pass\<close>

text \<open>
  The start of the current range never changes, so the first merged range keeps the start
  of the first range; a range is finalized only when the next start is beyond its end plus
  one, so the merged ranges are separated whatever the input was.
\<close>

lemma spec_merge_from_head:
  "\<exists>e rest. spec_merge_from cur rs = (fst cur, e) # rest \<and> snd cur \<le> e"
proof (induction rs arbitrary: cur)
  case Nil
  show ?case by (cases cur) simp
next
  case (Cons r rs)
  show ?case
  proof (cases "fst r \<le> snd cur + 1")
    case True
    obtain e rest where
      "spec_merge_from (fst cur, max (snd cur) (snd r)) rs = (fst cur, e) # rest"
      "max (snd cur) (snd r) \<le> e"
      using Cons.IH[of "(fst cur, max (snd cur) (snd r))"] by auto
    with True show ?thesis by auto
  next
    case False
    then show ?thesis by (cases cur) auto
  qed
qed

lemma separated_Cons:
  "separated (r # rs) = ((rs \<noteq> [] \<longrightarrow> snd r + 1 < fst (hd rs)) \<and> separated rs)"
  by (cases rs) auto

lemma separated_spec_merge_from: "separated (spec_merge_from cur rs)"
proof (induction rs arbitrary: cur)
  case Nil
  show ?case by simp
next
  case (Cons r rs)
  show ?case
  proof (cases "fst r \<le> snd cur + 1")
    case True
    then show ?thesis using Cons.IH by simp
  next
    case False
    obtain e rest where h: "spec_merge_from r rs = (fst r, e) # rest"
      using spec_merge_from_head[of r rs] by auto
    have "separated (spec_merge_from r rs)" by (rule Cons.IH)
    with False h show ?thesis by (simp add: separated_Cons)
  qed
qed

lemma separated_spec_merge: "separated (spec_merge rs)"
  by (cases rs) (simp_all add: separated_spec_merge_from)

lemma spec_merge_from_all:
  assumes step: "\<And>a b. P a \<Longrightarrow> P b \<Longrightarrow> P (fst a, max (snd a) (snd b))"
  shows "P cur \<Longrightarrow> list_all P rs \<Longrightarrow> list_all P (spec_merge_from cur rs)"
proof (induction rs arbitrary: cur)
  case Nil
  then show ?case by simp
next
  case (Cons r rs)
  then show ?case using step[of cur r] by auto
qed

lemma spec_merge_all:
  assumes step: "\<And>a b. P a \<Longrightarrow> P b \<Longrightarrow> P (fst a, max (snd a) (snd b))"
  shows "list_all P rs \<Longrightarrow> list_all P (spec_merge rs)"
  using spec_merge_from_all[of P, OF step] by (cases rs) auto

lemma range_ok_merged:
  "list_all range_ok hl \<Longrightarrow> list_all range_ok (mergedHighlights hl)"
proof -
  assume a: "list_all range_ok hl"
  have "list_all range_ok (sort_key fst hl)" using a by (simp add: list_all_iff)
  then show ?thesis
    unfolding mergedHighlights_spec
    by (rule spec_merge_all[rotated]) (auto simp: range_ok_def)
qed

lemma range_in_text_merged:
  "list_all (range_in_text t) hl \<Longrightarrow> list_all (range_in_text t) (mergedHighlights hl)"
proof -
  assume a: "list_all (range_in_text t) hl"
  have "list_all (range_in_text t) (sort_key fst hl)" using a by (simp add: list_all_iff)
  then show ?thesis
    unfolding mergedHighlights_spec
    by (rule spec_merge_all[rotated]) (auto simp: range_in_text_def range_ok_def)
qed

lemma separated_merged: "separated (mergedHighlights hl)"
  by (simp add: mergedHighlights_spec separated_spec_merge)

lemma spec_merge_from_separated: "separated (r # rs) \<Longrightarrow> spec_merge_from r rs = r # rs"
  by (induction rs arbitrary: r) auto

lemma spec_merge_separated: "separated rs \<Longrightarrow> spec_merge rs = rs"
  by (cases rs) (simp_all add: spec_merge_from_separated)

lemma length_spec_merge_from: "length (spec_merge_from cur rs) \<le> Suc (length rs)"
  by (induction rs arbitrary: cur) (auto simp: le_SucI)

lemma length_spec_merge: "length (spec_merge rs) \<le> length rs"
  by (cases rs) (simp_all add: length_spec_merge_from)

lemma spec_merge_nonempty: "rs \<noteq> [] \<Longrightarrow> spec_merge rs \<noteq> []"
proof (cases rs)
  case (Cons r rest)
  obtain e tl where "spec_merge_from r rest = (fst r, e) # tl"
    using spec_merge_from_head[of r rest] by auto
  with Cons show ?thesis by simp
qed simp

lemma mergedHighlights_nonempty: "hl \<noteq> [] \<Longrightarrow> mergedHighlights hl \<noteq> []"
proof -
  assume "hl \<noteq> []"
  then have "sort_key fst hl \<noteq> []" by (metis length_sort length_0_conv)
  then show ?thesis by (simp add: mergedHighlights_spec spec_merge_nonempty)
qed

section \<open>Slices\<close>

text \<open>
  For indices that are not negative and in order a slice is a \<open>take\<close> of a \<open>drop\<close>,
  also when an index is beyond the end of the text.
\<close>

lemma slice_nat:
  "0 \<le> a \<Longrightarrow> a \<le> b \<Longrightarrow> slice t a b = take (nat b - nat a) (drop (nat a) t)"
  by (auto simp: slice_def relative_index_def Let_def min_def nat_diff_distrib)

lemma slice_drop:
  assumes "0 \<le> a" "a \<le> b"
  shows "slice t a b @ drop (nat b) t = drop (nat a) t"
proof -
  have "nat a \<le> nat b" using assms by simp
  then have "drop (nat b) t = drop (nat b - nat a) (drop (nat a) t)" by simp
  then have "take (nat b - nat a) (drop (nat a) t) @ drop (nat b) t = drop (nat a) t"
    by (simp only: append_take_drop_id)
  then show ?thesis using assms by (simp only: slice_nat)
qed

lemma slice_Nil: "slice [] a b = []"
  by (simp add: slice_def relative_index_def)

lemma slice_sublist: "sublist (slice t a b) t"
proof -
  have "sublist (take n (drop m t)) t" for n m
    using sublist_order.order_trans[OF sublist_take sublist_drop] .
  then show ?thesis by (simp add: slice_def Let_def)
qed

lemma slice_nonempty:
  "0 \<le> a \<Longrightarrow> a < b \<Longrightarrow> a < int (length t) \<Longrightarrow> slice t a b \<noteq> []"
  by (auto simp: slice_def relative_index_def Let_def min_def)

section \<open>Properties of the emission walk\<close>

subsection \<open>Coverage\<close>

lemma content_render: "content (render t sp) = slice t (span_lo sp) (span_hi sp)"
  by (cases sp) simp_all

lemma spec_emit_coverage:
  "0 \<le> c \<Longrightarrow> list_all range_ok rs \<Longrightarrow> separated rs \<Longrightarrow>
   (rs \<noteq> [] \<longrightarrow> c \<le> fst (hd rs)) \<Longrightarrow>
   concat (map (content \<circ> render t) (spec_emit (int (length t)) c rs)) = drop (nat c) t"
proof (induction rs arbitrary: c)
  case Nil
  then show ?case by (simp add: slice_nat)
next
  case (Cons r rs)
  have r: "0 \<le> fst r" "fst r \<le> snd r" using Cons.prems(2) by (simp_all add: range_ok_def)
  have c: "c \<le> fst r" using Cons.prems(4) by simp
  have "concat (map (content \<circ> render t) (spec_emit (int (length t)) (snd r + 1) rs))
        = drop (nat (snd r + 1)) t"
    using Cons.prems r by (intro Cons.IH) (auto simp: separated_Cons)
  moreover have "slice t (fst r) (snd r + 1) @ drop (nat (snd r + 1)) t = drop (nat (fst r)) t"
    using r by (intro slice_drop) auto
  moreover have "slice t c (fst r) @ drop (nat (fst r)) t = drop (nat c) t"
    using c Cons.prems(1) by (intro slice_drop) auto
  moreover have "c = fst r" if "\<not> c < fst r" using that c by simp
  ultimately show ?case by (auto simp: o_def)
qed

lemma HighlightedText_coverage:
  assumes "list_all range_ok hl"
  shows "concat (map content (HighlightedText t (Some hl))) = t"
proof (cases "hl = []")
  case True
  then show ?thesis by (simp add: HighlightedText_def)
next
  case False
  let ?m = "mergedHighlights hl"
  have ok: "list_all range_ok ?m" using assms by (rule range_ok_merged)
  have ne: "?m \<noteq> []" using False by (rule mergedHighlights_nonempty)
  have "0 \<le> fst (hd ?m)" using ok ne by (cases ?m) (auto simp: range_ok_def)
  then have "concat (map (content \<circ> render t) (spec_emit (int (length t)) 0 ?m)) = drop (nat 0) t"
    using ok separated_merged[of hl] by (intro spec_emit_coverage) auto
  then show ?thesis using False
    by (simp add: HighlightedText_def emit_parts_spec)
qed

subsection \<open>Consecutive spans\<close>

lemma spec_emit_follows_strict:
  "separated rs \<Longrightarrow> (rs \<noteq> [] \<longrightarrow> c < fst (hd rs)) \<Longrightarrow>
   successively follows (spec_emit len c rs)
   \<and> (spec_emit len c rs \<noteq> [] \<longrightarrow> hd (spec_emit len c rs) = PlainSpan c (span_hi (hd (spec_emit len c rs))))"
proof (induction rs arbitrary: c)
  case Nil
  then show ?case by simp
next
  case (Cons r rs)
  have IH: "successively follows (spec_emit len (snd r + 1) rs)
    \<and> (spec_emit len (snd r + 1) rs \<noteq> [] \<longrightarrow>
       hd (spec_emit len (snd r + 1) rs) = PlainSpan (snd r + 1) (span_hi (hd (spec_emit len (snd r + 1) rs))))"
    using Cons.prems by (intro Cons.IH) (auto simp: separated_Cons)
  have c: "c < fst r" using Cons.prems by simp
  have "successively follows (HighlightedSpan (fst r) (snd r + 1) # spec_emit len (snd r + 1) rs)"
  proof (cases "spec_emit len (snd r + 1) rs")
    case Nil
    then show ?thesis by simp
  next
    case (Cons sp sps)
    with IH have "sp = PlainSpan (snd r + 1) (span_hi sp)" by simp
    then have "follows (HighlightedSpan (fst r) (snd r + 1)) sp"
      by (cases sp) (auto simp: follows_def)
    then show ?thesis using IH Cons by simp
  qed
  then show ?case using c by (simp add: follows_def)
qed

lemma spec_emit_follows:
  assumes "separated rs"
  shows "successively follows (spec_emit len c rs)"
proof (cases rs)
  case Nil
  then show ?thesis by simp
next
  case (Cons r rest)
  have t: "successively follows (spec_emit len (snd r + 1) rest)
    \<and> (spec_emit len (snd r + 1) rest \<noteq> [] \<longrightarrow>
       hd (spec_emit len (snd r + 1) rest) = PlainSpan (snd r + 1) (span_hi (hd (spec_emit len (snd r + 1) rest))))"
    using assms Cons by (intro spec_emit_follows_strict) (auto simp: separated_Cons)
  have h: "successively follows (HighlightedSpan (fst r) (snd r + 1) # spec_emit len (snd r + 1) rest)"
  proof (cases "spec_emit len (snd r + 1) rest")
    case Nil
    then show ?thesis by simp
  next
    case (Cons sp sps)
    with t have "sp = PlainSpan (snd r + 1) (span_hi sp)" by simp
    then have "follows (HighlightedSpan (fst r) (snd r + 1)) sp"
      by (cases sp) (auto simp: follows_def)
    then show ?thesis using t Cons by simp
  qed
  show ?thesis using h Cons by (simp add: follows_def)
qed

lemma HighlightedText_spans_follows:
  "successively follows (HighlightedText_spans len highlights)"
  by (simp add: HighlightedText_spans_def emit_spans_spec spec_emit_follows separated_merged
      split: option.splits)

lemma follows_disjoint:
  "follows a b \<Longrightarrow> span_indices len a \<inter> span_indices len b = {}"
  by (cases a; cases b) (auto simp: follows_def)

subsection \<open>Contents that are not empty\<close>

lemma spec_emit_nonempty_content:
  "0 \<le> c \<Longrightarrow> list_all (range_in_text t) rs \<Longrightarrow>
   list_all (\<lambda>sp. slice t (span_lo sp) (span_hi sp) \<noteq> []) (spec_emit (int (length t)) c rs)"
proof (induction rs arbitrary: c)
  case Nil
  then show ?case by (simp add: slice_nonempty)
next
  case (Cons r rs)
  have r: "0 \<le> fst r" "fst r \<le> snd r" "snd r < int (length t)"
    using Cons.prems(2) by (simp_all add: range_in_text_def range_ok_def)
  have "list_all (\<lambda>sp. slice t (span_lo sp) (span_hi sp) \<noteq> []) (spec_emit (int (length t)) (snd r + 1) rs)"
    using Cons.prems r by (intro Cons.IH) auto
  moreover have "slice t (fst r) (snd r + 1) \<noteq> []"
    using r by (intro slice_nonempty) auto
  moreover have "slice t c (fst r) \<noteq> []" if "c < fst r"
    using that r Cons.prems(1) by (intro slice_nonempty) auto
  ultimately show ?case by simp
qed

subsection \<open>Counts\<close>

lemma length_spec_emit: "length (spec_emit len c rs) \<le> 2 * length rs + 1"
proof (induction rs arbitrary: c)
  case Nil
  show ?case by simp
next
  case (Cons r rs)
  show ?case using Cons.IH[of "snd r + 1"] by simp
qed

lemma render_highlighted: "is_highlighted (render t sp) = span_highlighted sp"
  by (cases sp) simp_all

lemma count_highlighted_spec_emit:
  "length (filter span_highlighted (spec_emit len c rs)) = length rs"
  by (induction rs arbitrary: c) auto

lemma length_spec_merge_sorted: "length (mergedHighlights hl) \<le> length hl"
  using length_spec_merge[of "sort_key fst hl"] by (simp add: mergedHighlights_spec)

lemma HighlightedText_spans_nonempty_content:
  assumes "t \<noteq> []" and "list_all (range_in_text t) (highlight_list highlights)"
  shows "list_all (\<lambda>sp. slice t (span_lo sp) (span_hi sp) \<noteq> [])
           (HighlightedText_spans (int (length t)) highlights)"
proof -
  have whole: "slice t 0 (int (length t)) \<noteq> []" using assms(1) by (simp add: slice_whole)
  show ?thesis
  proof (cases highlights)
    case None
    then show ?thesis using whole by (simp add: HighlightedText_spans_def)
  next
    case (Some hl)
    have "list_all (range_in_text t) (mergedHighlights hl)"
      using assms(2) Some by (simp add: highlight_list_def range_in_text_merged)
    then have "list_all (\<lambda>sp. slice t (span_lo sp) (span_hi sp) \<noteq> [])
                 (spec_emit (int (length t)) 0 (mergedHighlights hl))"
      by (intro spec_emit_nonempty_content) auto
    then show ?thesis using Some whole
      by (simp add: HighlightedText_spans_def emit_spans_spec)
  qed
qed

section \<open>The component on the store\<close>

text \<open>
  On a store in which \<^verbatim>\<open>highlights\<close> is an array of ranges, the component on the store
  returns what \<open>HighlightedText\<close> computes from the values of the ranges, and every
  object that was allocated at the call is as it was: the merge loop assigns only to
  ranges that it has allocated itself.
\<close>

lemma read_range_update_other: "a \<noteq> b \<Longrightarrow> read_range (h[b := ob]) a = read_range h a"
  by (simp add: read_range_def)

lemma read_range_update_same:
  "b < length h \<Longrightarrow> read_range (h[b := RangeObj s e]) b = Some (s, e)"
  by (simp add: read_range_def)

lemma read_range_append: "a < length h \<Longrightarrow> read_range (h @ [ob]) a = read_range h a"
  by (simp add: read_range_def nth_append)

lemma read_range_append_new: "read_range (h @ [RangeObj s e]) (length h) = Some (s, e)"
  by (simp add: read_range_def)

lemma read_range_Some_less: "read_range h a = Some r \<Longrightarrow> a < length h"
  by (simp add: read_range_def split: if_splits)

lemma read_range_prefix:
  assumes "take (length h0) h = h0" and "read_range h0 a = Some r"
  shows "read_range h a = Some r"
proof -
  have a: "a < length h0" using assms(2) by (rule read_range_Some_less)
  have "length h0 \<le> length h" using assms(1) by (metis length_take min.cobounded1)
  moreover have "h ! a = h0 ! a" using a assms(1) by (metis nth_take)
  ultimately show ?thesis using a assms(2) by (simp add: read_range_def)
qed

lemma read_array_inv: "merge_inv h0 m h ms \<Longrightarrow> read_array h m = Some ms"
  by (simp add: merge_inv_def read_array_def)

lemma merge_inv_push:
  assumes inv: "merge_inv h0 m h ms"
  shows "merge_inv h0 m (push_copy m h ms r) (ms @ [length h])
         \<and> abs_ranges (push_copy m h ms r) (ms @ [length h]) = abs_ranges h ms @ [r]"
proof -
  let ?h' = "(h @ [RangeObj (fst r) (snd r)])[m := ArrayObj (ms @ [length h])]"
  have p: "push_copy m h ms r = ?h'" by (simp add: push_copy_def alloc_def)
  from inv have pre: "take (length h0) h = h0" and m0: "length h0 \<le> m" and m: "m < length h"
    and d: "distinct ms"
    and all: "list_all (\<lambda>c. m < c \<and> c < length h \<and> read_range h c \<noteq> None) ms"
    by (simp_all add: merge_inv_def)
  have len0: "length h0 \<le> length h" using m0 m by simp
  have rd: "read_range ?h' c = read_range h c" if "c \<in> set ms" for c
  proof -
    from that all have "m < c" "c < length h" by (auto simp: list_all_iff)
    then show ?thesis by (simp add: read_range_update_other read_range_append)
  qed
  have new: "read_range ?h' (length h) = Some r"
    using m by (simp add: read_range_update_other read_range_append_new)
  have fresh: "length h \<notin> set ms" using all by (auto simp: list_all_iff)
  have 1: "take (length h0) ?h' = h0" using pre m0 len0 by simp
  have 2: "?h' ! m = ArrayObj (ms @ [length h])" using m by simp
  have 3: "distinct (ms @ [length h])" using d fresh by simp
  have 4: "list_all (\<lambda>c. m < c \<and> c < length ?h' \<and> read_range ?h' c \<noteq> None) (ms @ [length h])"
    using all m new rd by (auto simp: list_all_iff)
  have 5: "abs_ranges ?h' (ms @ [length h]) = abs_ranges h ms @ [r]"
    using rd new by (simp add: abs_ranges_def)
  show ?thesis unfolding p using 1 2 3 4 5 m0 m by (simp add: merge_inv_def)
qed

lemma merge_inv_assign:
  assumes inv: "merge_inv h0 m h ms" and ne: "ms \<noteq> []"
  shows "merge_inv h0 m (h[last ms := RangeObj s e]) ms
         \<and> abs_ranges (h[last ms := RangeObj s e]) ms = butlast (abs_ranges h ms) @ [(s, e)]"
proof -
  let ?l = "last ms"
  let ?h' = "h[?l := RangeObj s e]"
  from inv have pre: "take (length h0) h = h0" and m0: "length h0 \<le> m" and m: "m < length h"
    and hm: "h ! m = ArrayObj ms" and d: "distinct ms"
    and all: "list_all (\<lambda>c. m < c \<and> c < length h \<and> read_range h c \<noteq> None) ms"
    by (simp_all add: merge_inv_def)
  have lin: "?l \<in> set ms" using ne by simp
  then have l: "m < ?l" "?l < length h" using all by (auto simp: list_all_iff)
  have ms: "ms = butlast ms @ [?l]" using ne by simp
  have "distinct (butlast ms @ [?l])" by (simp only: append_butlast_last_id[OF ne] d)
  then have notin: "?l \<notin> set (butlast ms)" by simp
  have rd: "read_range ?h' c = read_range h c" if "c \<in> set (butlast ms)" for c
    using that notin by (intro read_range_update_other) auto
  have new: "read_range ?h' ?l = Some (s, e)" using l by (simp add: read_range_update_same)
  have 1: "take (length h0) ?h' = h0" using pre m0 l by simp
  have 2: "?h' ! m = ArrayObj ms" using hm l by simp
  have 4: "list_all (\<lambda>c. m < c \<and> c < length ?h' \<and> read_range ?h' c \<noteq> None) ms"
  proof -
    have "read_range ?h' c \<noteq> None" if "c \<in> set ms" for c
    proof (cases "c = ?l")
      case True then show ?thesis using new by simp
    next
      case False
      then show ?thesis using that all by (simp add: read_range_update_other list_all_iff)
    qed
    then show ?thesis using all by (auto simp: list_all_iff)
  qed
  have "abs_ranges ?h' ms = abs_ranges ?h' (butlast ms) @ [the (read_range ?h' ?l)]"
  proof -
    have "abs_ranges ?h' (butlast ms @ [?l])
          = abs_ranges ?h' (butlast ms) @ [the (read_range ?h' ?l)]"
      by (simp add: abs_ranges_def)
    then show ?thesis by (simp only: append_butlast_last_id[OF ne])
  qed
  also have "abs_ranges ?h' (butlast ms) = abs_ranges h (butlast ms)"
    using rd by (simp add: abs_ranges_def)
  also have "abs_ranges h (butlast ms) = butlast (abs_ranges h ms)"
    by (simp add: abs_ranges_def map_butlast)
  finally have 5: "abs_ranges ?h' ms = butlast (abs_ranges h ms) @ [(s, e)]" using new by simp
  show ?thesis using 1 2 d 4 5 m0 m by (simp add: merge_inv_def)
qed

lemma merge_step_heap_correct:
  assumes inv: "merge_inv h0 m h ms" and rng: "read_range h0 rng = Some r"
  shows "\<exists>h' ms'. merge_step_heap m h rng = Some h' \<and> merge_inv h0 m h' ms'
           \<and> abs_ranges h' ms' = merge_step (abs_ranges h ms) r"
proof -
  have pre: "take (length h0) h = h0" using inv by (simp add: merge_inv_def)
  have ra: "read_array h m = Some ms" using inv by (rule read_array_inv)
  have rr: "read_range h rng = Some r" using pre rng by (rule read_range_prefix)
  show ?thesis
  proof (cases "ms = []")
    case True
    have "merge_step_heap m h rng = Some (push_copy m h ms r)"
      using ra rr True by (simp add: merge_step_heap_def)
    moreover have "merge_step (abs_ranges h ms) r = abs_ranges h ms @ [r]"
      using True by (simp add: merge_step_def abs_ranges_def)
    ultimately show ?thesis using merge_inv_push[OF inv, of r] by auto
  next
    case False
    from inv have all: "list_all (\<lambda>c. m < c \<and> c < length h \<and> read_range h c \<noteq> None) ms"
      by (simp add: merge_inv_def)
    have "last ms \<in> set ms" using False by simp
    then obtain l where l: "read_range h (last ms) = Some l" using all by (auto simp: list_all_iff)
    have lastabs: "last (abs_ranges h ms) = l" "abs_ranges h ms \<noteq> []"
      using False l by (simp_all add: abs_ranges_def last_map)
    show ?thesis
    proof (cases "fst r \<le> snd l + 1")
      case True
      have "merge_step_heap m h rng = Some (h[last ms := RangeObj (fst l) (max (snd l) (snd r))])"
        using ra rr False l True by (simp add: merge_step_heap_def)
      moreover have "merge_step (abs_ranges h ms) r
                     = butlast (abs_ranges h ms) @ [(fst l, max (snd l) (snd r))]"
        using True lastabs by (simp add: merge_step_def)
      ultimately show ?thesis
        using merge_inv_assign[OF inv False, of "fst l" "max (snd l) (snd r)"] by auto
    next
      case nomerge: False
      have "merge_step_heap m h rng = Some (push_copy m h ms r)"
        using ra rr False l nomerge by (simp add: merge_step_heap_def)
      moreover have "merge_step (abs_ranges h ms) r = abs_ranges h ms @ [r]"
        using nomerge lastabs by (simp add: merge_step_def)
      ultimately show ?thesis using merge_inv_push[OF inv, of r] by auto
    qed
  qed
qed

lemma merge_loop_heap_correct:
  assumes "merge_inv h0 m h ms" and "read_ranges h0 rs = Some vs"
  shows "\<exists>h' ms'. merge_loop_heap m h rs = Some h' \<and> merge_inv h0 m h' ms'
           \<and> abs_ranges h' ms' = foldl merge_step (abs_ranges h ms) vs"
  using assms
proof (induction rs arbitrary: h ms vs)
  case Nil
  then show ?case by auto
next
  case (Cons rng rs)
  from Cons.prems(2) obtain r vs' where r: "read_range h0 rng = Some r"
    and vs': "read_ranges h0 rs = Some vs'" and vs: "vs = r # vs'"
    by (auto simp: bind_eq_Some_conv)
  obtain h1 ms1 where s: "merge_step_heap m h rng = Some h1" and i: "merge_inv h0 m h1 ms1"
    and a: "abs_ranges h1 ms1 = merge_step (abs_ranges h ms) r"
    using merge_step_heap_correct[OF Cons.prems(1) r] by auto
  obtain h' ms' where "merge_loop_heap m h1 rs = Some h'" "merge_inv h0 m h' ms'"
    "abs_ranges h' ms' = foldl merge_step (abs_ranges h1 ms1) vs'"
    using Cons.IH[OF i vs'] by auto
  then show ?case using s a vs by auto
qed

lemma read_ranges_abs:
  "list_all (\<lambda>c. read_range h c \<noteq> None) ms \<Longrightarrow> read_ranges h ms = Some (abs_ranges h ms)"
  by (induction ms) (auto simp: abs_ranges_def)

lemma read_ranges_Some_all:
  "read_ranges h rs = Some vs \<Longrightarrow> list_all (\<lambda>a. read_range h a \<noteq> None) rs \<and> vs = abs_ranges h rs"
  by (induction rs arbitrary: vs) (auto simp: abs_ranges_def bind_eq_Some_conv)

lemma map_insort_key:
  "map f (insort_key (\<lambda>x. g (f x)) x xs) = insort_key g (f x) (map f xs)"
  by (induction xs) auto

lemma map_sort_key: "map f (sort_key (\<lambda>x. g (f x)) xs) = sort_key g (map f xs)"
  by (induction xs) (auto simp: map_insort_key)

lemma insort_key_eq_keys:
  "f x = g x \<Longrightarrow> (\<And>y. y \<in> set xs \<Longrightarrow> f y = g y) \<Longrightarrow> insort_key f x xs = insort_key g x xs"
  by (induction xs) auto

lemma sort_key_eq_keys:
  "(\<And>y. y \<in> set xs \<Longrightarrow> f y = g y) \<Longrightarrow> sort_key f xs = sort_key g xs"
proof (induction xs)
  case Nil
  show ?case by simp
next
  case (Cons x xs)
  have "sort_key f xs = sort_key g xs" using Cons by simp
  moreover have "insort_key f x (sort_key g xs) = insort_key g x (sort_key g xs)"
    using Cons.prems by (intro insort_key_eq_keys) auto
  ultimately show ?case by simp
qed

lemma sort_copy_correct:
  assumes all: "list_all (\<lambda>a. read_range h a \<noteq> None) refs"
  shows "sort_copy h refs
         = Some (length h, h @ [ArrayObj (sort_key (\<lambda>a. fst (the (read_range h a))) refs)])"
proof -
  have "read_range (h @ [ArrayObj refs]) a = read_range h a" if "a \<in> set refs" for a
  proof -
    from that all obtain r where "read_range h a = Some r" by (auto simp: list_all_iff)
    then have "a < length h" by (rule read_range_Some_less)
    then show ?thesis by (rule read_range_append)
  qed
  then have "sort_key (\<lambda>a. fst (the (read_range (h @ [ArrayObj refs]) a))) refs
             = sort_key (\<lambda>a. fst (the (read_range h a))) refs"
    by (intro sort_key_eq_keys) simp
  then show ?thesis using all by (simp add: sort_copy_def alloc_def)
qed

lemma HighlightedText_heap_correct:
  assumes arr: "read_array h a = Some refs" and vals: "read_ranges h refs = Some hl"
  shows "\<exists>h'. HighlightedText_heap h t (Some a) = Some (HighlightedText t (Some hl), h')
              \<and> take (length h) h' = h"
proof (cases "refs = []")
  case True
  then have "hl = []" using vals by simp
  then show ?thesis using arr True by (simp add: HighlightedText_heap_def HighlightedText_def)
next
  case False
  have all: "list_all (\<lambda>a. read_range h a \<noteq> None) refs" and hl: "hl = abs_ranges h refs"
    using read_ranges_Some_all[OF vals] by simp_all
  have hlne: "hl \<noteq> []" using False hl by (simp add: abs_ranges_def)
  let ?sorted = "sort_key (\<lambda>a. fst (the (read_range h a))) refs"
  let ?h1 = "h @ [ArrayObj ?sorted]"
  let ?m = "Suc (length h)"
  let ?h2 = "?h1 @ [ArrayObj []]"
  have sc: "sort_copy h refs = Some (length h, ?h1)" using all by (rule sort_copy_correct)
  have rs: "read_array ?h1 (length h) = Some ?sorted" by (simp add: read_array_def)
  have al: "alloc ?h1 (ArrayObj []) = (?m, ?h2)" by (simp add: alloc_def)
  have inv: "merge_inv h ?m ?h2 []" by (simp add: merge_inv_def nth_append)
  have "list_all (\<lambda>a. read_range h a \<noteq> None) ?sorted" using all by (simp add: list_all_iff)
  then have "read_ranges h ?sorted = Some (abs_ranges h ?sorted)" by (rule read_ranges_abs)
  moreover have "abs_ranges h ?sorted = sort_key fst hl"
    unfolding hl abs_ranges_def by (rule map_sort_key)
  ultimately have sv: "read_ranges h ?sorted = Some (sort_key fst hl)" by simp
  obtain h3 ms where loop: "merge_loop_heap ?m ?h2 ?sorted = Some h3"
    and inv3: "merge_inv h ?m h3 ms"
    and abs3: "abs_ranges h3 ms = foldl merge_step (abs_ranges ?h2 []) (sort_key fst hl)"
    using merge_loop_heap_correct[OF inv sv] by auto
  have merged: "abs_ranges h3 ms = mergedHighlights hl"
    using abs3 by (simp add: abs_ranges_def mergedHighlights_def sortedHighlights_def merge_pass_def)
  have rm: "read_array h3 ?m = Some ms" using inv3 by (rule read_array_inv)
  have "list_all (\<lambda>c. read_range h3 c \<noteq> None) ms"
    using inv3 by (auto simp: merge_inv_def list_all_iff)
  then have rv: "read_ranges h3 ms = Some (mergedHighlights hl)"
    using read_ranges_abs[of h3 ms] merged by simp
  have pre: "take (length h) h3 = h" using inv3 by (simp add: merge_inv_def)
  have "HighlightedText_heap h t (Some a) = Some (emit_parts t (mergedHighlights hl), h3)"
    using arr False sc rs al loop rm rv by (simp add: HighlightedText_heap_def)
  moreover have "HighlightedText t (Some hl) = emit_parts t (mergedHighlights hl)"
    using hlne by (simp add: HighlightedText_def)
  ultimately show ?thesis using pre by simp
qed

lemma read_array_Some_less: "read_array h a = Some refs \<Longrightarrow> a < length h"
  by (simp add: read_array_def split: if_splits)

lemma read_array_prefix:
  assumes "take (length h0) h = h0" and "read_array h0 a = Some refs"
  shows "read_array h a = Some refs"
proof -
  have a: "a < length h0" using assms(2) by (rule read_array_Some_less)
  have "length h0 \<le> length h" using assms(1) by (metis length_take min.cobounded1)
  moreover have "h ! a = h0 ! a" using a assms(1) by (metis nth_take)
  ultimately show ?thesis using a assms(2) by (simp add: read_array_def)
qed

lemma read_ranges_prefix:
  "take (length h0) h = h0 \<Longrightarrow> read_ranges h0 rs = Some vs \<Longrightarrow> read_ranges h rs = Some vs"
proof (induction rs arbitrary: vs)
  case Nil
  then show ?case by simp
next
  case (Cons a rs)
  from Cons.prems(2) obtain r vs' where r: "read_range h0 a = Some r"
    and vs': "read_ranges h0 rs = Some vs'" and vs: "vs = r # vs'"
    by (auto simp: bind_eq_Some_conv)
  have "read_range h a = Some r" using Cons.prems(1) r by (rule read_range_prefix)
  moreover have "read_ranges h rs = Some vs'" using Cons.prems(1) vs' by (rule Cons.IH)
  ultimately show ?case using vs by simp
qed

section \<open>The merge pass\<close>

text \<open>
  Claim C2. On the ranges sorted by start, the merge loop of the source computes the
  merge pass of the specification: a new range is combined into the current merged range
  exactly when its start is at most the current end plus one, the merged end is the
  maximum of both ends, and otherwise the current range is finalized and the new range
  starts a fresh one. The ranges \<open>[0,2]\<close> and \<open>[3,5]\<close> merge into \<open>[0,5]\<close>, and
  \<open>[1,4]\<close> and \<open>[3,6]\<close> merge into \<open>[1,6]\<close>.
\<close>

theorem merge_pass_as_specified:
  "merge_pass sorted_ranges = spec_merge sorted_ranges
   \<and> mergedHighlights highlights = spec_merge (sortedHighlights highlights)
   \<and> mergedHighlights [(0, 2), (3, 5)] = [(0, 5)]
   \<and> mergedHighlights [(1, 4), (3, 6)] = [(1, 6)]"
  by (simp add: merge_pass_spec mergedHighlights_def sortedHighlights_def)

section \<open>The emission walk\<close>

text \<open>
  Claim C3. The emission loop of the source is the walk of the specification over the
  merged ranges with a cursor that starts at \<open>0\<close>: a plain segment from the cursor to the
  start of the range only when the start is beyond the cursor, then the highlighted
  segment from the start to the end of the range, the end included, then the cursor at
  the end plus one; after the last range a plain segment from the cursor to the length of
  the text only when the cursor is below that length. The text \<^verbatim>\<open>"hi"\<close> with the
  highlight \<open>[0,1]\<close> gives the single highlighted segment \<^verbatim>\<open>"hi"\<close> and no plain one.
\<close>

theorem emission_as_specified:
  "emit_parts text merged = map (render text) (spec_emit (int (length text)) 0 merged)
   \<and> emit_spans len merged = spec_emit len 0 merged
   \<and> HighlightedText ''hi'' (Some [(0, 1)]) = [Highlighted ''hi'']"
proof -
  have "HighlightedText ''hi'' (Some [(0, 1)]) = [Highlighted ''hi'']"
    by (simp add: HighlightedText_def mergedHighlights_spec emit_parts_spec
        slice_def relative_index_def)
  then show ?thesis
    by (simp add: emit_parts_spec emit_spans_spec)
qed

section \<open>Absent or empty highlights\<close>

text \<open>
  Claim C5. When \<^verbatim>\<open>highlights\<close> is undefined or an empty list, the output is exactly
  one plain segment holding the whole text; the text \<^verbatim>\<open>"hello"\<close> with no highlights
  gives the single plain segment \<^verbatim>\<open>"hello"\<close>.
\<close>

theorem no_highlights_single_plain:
  "HighlightedText text None = [Plain text]
   \<and> HighlightedText text (Some []) = [Plain text]
   \<and> HighlightedText ''hello'' (Some []) = [Plain ''hello'']"
  by (simp add: HighlightedText_def)

section \<open>Coverage of the text\<close>

text \<open>
  The claim that the contents of the emitted segments, joined in order, are the text for
  every list of ranges does not hold for a range whose start is beyond its end: for the
  text \<^verbatim>\<open>"abc"\<close> and the range \<open>[2,0]\<close> the segments are \<^verbatim>\<open>"ab"\<close>, the empty
  string and \<^verbatim>\<open>"bc"\<close>.
\<close>

theorem coverage_counterexample:
  "concat (map content (HighlightedText ''abc'' (Some [(2, 0)]))) = ''abbc''
   \<and> concat (map content (HighlightedText ''abc'' (Some [(2, 0)]))) \<noteq> ''abc''"
  by code_simp

text \<open>
  Claim C1, amended. For every text and every list of ranges in which each range has
  \<open>0 \<le> start \<le> end\<close>, as the invariant of the data model demands, and also when the
  list is undefined, the contents of all emitted segments, joined in the order of
  emission, are the text: the segments cover it once from index \<open>0\<close> to its length, with
  no gap and no overlap.
\<close>

theorem coverage_of_well_formed_ranges:
  assumes "list_all range_ok (highlight_list highlights)"
  shows "concat (map content (HighlightedText text highlights)) = text"
proof (cases highlights)
  case None
  then show ?thesis by (simp add: HighlightedText_def)
next
  case (Some hl)
  then show ?thesis using assms HighlightedText_coverage[of hl "text"]
    by (simp add: highlight_list_def)
qed

theorem coverage_of_well_formed_ranges_witness:
  "list_all range_ok (highlight_list (Some [(3, 4), (0, 1)]))
   \<and> concat (map content (HighlightedText ''hello'' (Some [(3, 4), (0, 1)]))) = ''hello''"
proof -
  have h: "list_all range_ok (highlight_list (Some [(3, 4), (0, 1)]))"
    by (simp add: highlight_list_def range_ok_def)
  show ?thesis using h coverage_of_well_formed_ranges[OF h, of "''hello''"] by simp
qed

section \<open>Consecutive segments\<close>

text \<open>
  Claim C4. For every input, the output is the rendering of the spans of the index
  record, and two consecutive spans read no common position of the text. The ranges
  \<open>[0,2]\<close> and \<open>[4,5]\<close>, which are not adjacent, stay two highlighted segments with the
  one plain character of index \<open>3\<close> between them.
\<close>

theorem consecutive_segments_do_not_overlap:
  "HighlightedText text highlights
     = map (render text) (HighlightedText_spans (int (length text)) highlights)
   \<and> (\<forall>i. Suc i < length (HighlightedText_spans (int (length text)) highlights) \<longrightarrow>
          span_indices (int (length text)) (HighlightedText_spans (int (length text)) highlights ! i)
          \<inter> span_indices (int (length text)) (HighlightedText_spans (int (length text)) highlights ! Suc i)
          = {})
   \<and> HighlightedText ''abcdef'' (Some [(0, 2), (4, 5)])
       = [Highlighted ''abc'', Plain ''d'', Highlighted ''ef'']
   \<and> HighlightedText_spans 6 (Some [(0, 2), (4, 5)])
       = [HighlightedSpan 0 3, PlainSpan 3 4, HighlightedSpan 4 6]"
proof (intro conjI allI impI)
  show "HighlightedText text highlights
     = map (render text) (HighlightedText_spans (int (length text)) highlights)"
    by (rule HighlightedText_render)
next
  fix i
  let ?spans = "HighlightedText_spans (int (length text)) highlights"
  assume "Suc i < length ?spans"
  then have "follows (?spans ! i) (?spans ! Suc i)"
    using HighlightedText_spans_follows by (rule successively_nth[rotated])
  then show "span_indices (int (length text)) (?spans ! i)
          \<inter> span_indices (int (length text)) (?spans ! Suc i) = {}"
    by (rule follows_disjoint)
next
  show "HighlightedText ''abcdef'' (Some [(0, 2), (4, 5)])
       = [Highlighted ''abc'', Plain ''d'', Highlighted ''ef'']"
    by code_simp
next
  show "HighlightedText_spans 6 (Some [(0, 2), (4, 5)])
       = [HighlightedSpan 0 3, PlainSpan 3 4, HighlightedSpan 4 6]"
    by code_simp
qed

theorem consecutive_segments_do_not_overlap_witness:
  "Suc 0 < length (HighlightedText_spans (int (length ''abcdef'')) (Some [(0, 2), (4, 5)]))
   \<and> span_indices (int (length ''abcdef''))
        (HighlightedText_spans (int (length ''abcdef'')) (Some [(0, 2), (4, 5)]) ! 0)
      \<inter> span_indices (int (length ''abcdef''))
        (HighlightedText_spans (int (length ''abcdef'')) (Some [(0, 2), (4, 5)]) ! Suc 0)
      = {}"
proof -
  have h: "Suc 0 < length (HighlightedText_spans (int (length ''abcdef'')) (Some [(0, 2), (4, 5)]))"
    by code_simp
  show ?thesis
    using h consecutive_segments_do_not_overlap[of "''abcdef''" "Some [(0, 2), (4, 5)]"]
    by blast
qed

section \<open>Ranges the merge pass leaves alone\<close>

text \<open>
  The claim that the merge pass returns every list that is sorted by start and pairwise
  disjoint does not hold for adjacent ranges: \<open>[0,2]\<close> and \<open>[3,5]\<close> are sorted and share
  no index, and the merge pass joins them into \<open>[0,5]\<close>.
\<close>

theorem merge_changes_adjacent_ranges:
  "sorted (map fst [(0, 2), (3, 5)::HighlightRange])
   \<and> pairwise_disjoint [(0, 2), (3, 5)]
   \<and> merge_pass [(0, 2), (3, 5)] = [(0, 5)]
   \<and> merge_pass [(0, 2), (3, 5)] \<noteq> [(0, 2), (3, 5)]"
  by (simp add: merge_pass_spec range_indices_def)

text \<open>
  Claim C6, amended. For every list of ranges that is sorted by start and in which each
  range starts more than one index after the end of the range before it (the ranges are
  disjoint and not adjacent), the merge pass returns the list unchanged, and so does the
  sort followed by the merge pass.
\<close>

theorem merge_pass_keeps_separated_ranges:
  assumes "sorted (map fst rs)" and "separated rs"
  shows "merge_pass rs = rs \<and> mergedHighlights rs = rs"
  using assms
  by (simp add: merge_pass_spec mergedHighlights_spec spec_merge_separated sort_key_id_if_sorted)

theorem merge_pass_keeps_separated_ranges_witness:
  "sorted (map fst [(0, 2), (4, 5)::HighlightRange]) \<and> separated [(0, 2), (4, 5)]
   \<and> merge_pass [(0, 2), (4, 5)] = [(0, 2), (4, 5)]
   \<and> mergedHighlights [(0, 2), (4, 5)] = [(0, 2), (4, 5)]"
proof -
  have s: "sorted (map fst [(0, 2), (4, 5)::HighlightRange])" by simp
  have g: "separated [(0, 2), (4, 5)]" by simp
  show ?thesis using s g merge_pass_keeps_separated_ranges[OF s g] by simp
qed

section \<open>The empty text\<close>

text \<open>
  The claim that nothing is emitted for the empty text and a list of ranges that is not
  empty does not hold: for the range \<open>[0,0]\<close> one highlighted segment is emitted, with
  the empty string as its content.
\<close>

theorem zero_length_text_counterexample:
  "HighlightedText (''''::string) (Some [(0, 0)]) = [Highlighted '''']
   \<and> HighlightedText (''''::string) (Some [(0, 0)]) \<noteq> []"
  by code_simp

text \<open>
  Claim C7, amended. For the empty text and every list of ranges that is not empty, every
  emitted segment has the empty string as its content, and the output is not empty: it
  holds one highlighted segment for each merged range.
\<close>

theorem zero_length_text_segments_empty:
  assumes "hl \<noteq> []"
  shows "list_all (\<lambda>s. content s = []) (HighlightedText ([]::'c list) (Some hl))
   \<and> length (filter is_highlighted (HighlightedText ([]::'c list) (Some hl)))
       = length (mergedHighlights hl)
   \<and> HighlightedText ([]::'c list) (Some hl) \<noteq> []"
proof -
  let ?m = "mergedHighlights hl"
  let ?out = "HighlightedText ([]::'c list) (Some hl)"
  have out: "?out = map (render []) (spec_emit 0 0 ?m)"
    using assms by (simp add: HighlightedText_def emit_parts_spec)
  have a: "list_all (\<lambda>s. content s = []) ?out"
    unfolding out by (simp add: list_all_iff content_render slice_Nil)
  have b: "length (filter is_highlighted ?out) = length ?m"
    unfolding out
    by (simp add: filter_map o_def render_highlighted count_highlighted_spec_emit)
  have "?m \<noteq> []" using assms by (rule mergedHighlights_nonempty)
  then have "length (filter is_highlighted ?out) \<noteq> 0" using b by simp
  then have c: "?out \<noteq> []" by auto
  from a b c show ?thesis by simp
qed

theorem zero_length_text_segments_empty_witness:
  "[(3, 4), (0, 0)::HighlightRange] \<noteq> []
   \<and> list_all (\<lambda>s. content s = []) (HighlightedText (''''::string) (Some [(3, 4), (0, 0)]))
   \<and> length (filter is_highlighted (HighlightedText (''''::string) (Some [(3, 4), (0, 0)])))
       = length (mergedHighlights [(3, 4), (0, 0)])
   \<and> HighlightedText (''''::string) (Some [(3, 4), (0, 0)]) \<noteq> []"
proof -
  have h: "[(3, 4), (0, 0)::HighlightRange] \<noteq> []" by simp
  show ?thesis using h zero_length_text_segments_empty[OF h, where 'c=char] by simp
qed

section \<open>Malformed ranges\<close>

text \<open>
  Claim C8. The source has no statement that throws, its two loops run over finite arrays,
  the read of \<^verbatim>\<open>last[1]\<close> is guarded and \<^verbatim>\<open>slice\<close> accepts every pair of integers. For
  every text and every list of integer pairs, with a start beyond its end, a negative
  start or an end beyond the text among them, each emitted content is a contiguous piece
  of the text, the empty one included, and there are at most two segments for each range
  and one more; and on every store in which \<^verbatim>\<open>highlights\<close> is undefined or an array of
  ranges the component returns this output and raises nothing.
\<close>

theorem never_raises_on_integer_pairs:
  "list_all (\<lambda>s. sublist (content s) text) (HighlightedText text highlights)
   \<and> length (HighlightedText text highlights) \<le> 2 * length (highlight_list highlights) + 1
   \<and> HighlightedText_heap h text None = Some (HighlightedText text None, h)
   \<and> (read_array h a = Some refs \<longrightarrow> read_ranges h refs = Some hl \<longrightarrow>
        (\<exists>h'. HighlightedText_heap h text (Some a) = Some (HighlightedText text (Some hl), h')))"
proof (intro conjI impI)
  let ?spans = "HighlightedText_spans (int (length text)) highlights"
  have out: "HighlightedText text highlights = map (render text) ?spans"
    by (rule HighlightedText_render)
  show "list_all (\<lambda>s. sublist (content s) text) (HighlightedText text highlights)"
    unfolding out by (simp add: list_all_iff content_render slice_sublist)
  have "length ?spans \<le> 2 * length (highlight_list highlights) + 1"
  proof (cases highlights)
    case None
    then show ?thesis by (simp add: HighlightedText_spans_def)
  next
    case (Some hl)
    have "length (spec_emit (int (length text)) 0 (mergedHighlights hl))
          \<le> 2 * length (mergedHighlights hl) + 1"
      by (rule length_spec_emit)
    also have "\<dots> \<le> 2 * length hl + 1" using length_spec_merge_sorted[of hl] by simp
    finally show ?thesis using Some
      by (simp add: HighlightedText_spans_def emit_spans_spec highlight_list_def)
  qed
  then show "length (HighlightedText text highlights) \<le> 2 * length (highlight_list highlights) + 1"
    by (simp add: out)
  show "HighlightedText_heap h text None = Some (HighlightedText text None, h)"
    by (simp add: HighlightedText_heap_def HighlightedText_def)
  assume "read_array h a = Some refs" and "read_ranges h refs = Some hl"
  then show "\<exists>h'. HighlightedText_heap h text (Some a) = Some (HighlightedText text (Some hl), h')"
    using HighlightedText_heap_correct by blast
qed

theorem never_raises_on_integer_pairs_witness:
  "read_array [RangeObj 2 0, RangeObj (- 1) 7, ArrayObj [0, 1]] 2 = Some [0, 1]
   \<and> read_ranges [RangeObj 2 0, RangeObj (- 1) 7, ArrayObj [0, 1]] [0, 1] = Some [(2, 0), (- 1, 7)]
   \<and> HighlightedText ''abc'' (Some [(2, 0), (- 1, 7)]) = [Highlighted ''c'']
   \<and> (\<exists>h'. HighlightedText_heap [RangeObj 2 0, RangeObj (- 1) 7, ArrayObj [0, 1]] ''abc'' (Some 2)
               = Some ([Highlighted ''c''], h'))"
proof -
  let ?h = "[RangeObj 2 0, RangeObj (- 1) 7, ArrayObj [0, 1]]"
  have a: "read_array ?h 2 = Some [0, 1]" by (simp add: read_array_def)
  have v: "read_ranges ?h [0, 1] = Some [(2, 0), (- 1, 7)]" by (simp add: read_range_def)
  have e: "HighlightedText ''abc'' (Some [(2, 0), (- 1, 7)]) = [Highlighted ''c'']" by code_simp
  have "\<exists>h'. HighlightedText_heap ?h ''abc'' (Some 2)
               = Some (HighlightedText ''abc'' (Some [(2, 0), (- 1, 7)]), h')"
    using a v never_raises_on_integer_pairs[of "''abc''" _ ?h 2 "[0, 1]" "[(2, 0), (- 1, 7)]"]
    by blast
  then have "\<exists>h'. HighlightedText_heap ?h ''abc'' (Some 2) = Some ([Highlighted ''c''], h')"
    unfolding e .
  with a v e show ?thesis by blast
qed

section \<open>Segments of ranges inside the text\<close>

text \<open>
  The claim that every emitted segment has a content that is not empty whenever the
  ranges satisfy \<open>0 \<le> start \<le> end < length\<close> does not hold for the empty text with no
  ranges: the early return emits one plain segment with the empty text as its content.
\<close>

theorem nonempty_alternating_counterexample:
  "list_all (range_in_text (''''::string)) (highlight_list (Some []))
   \<and> HighlightedText (''''::string) (Some []) = [Plain '''']
   \<and> \<not> list_all (\<lambda>s. content s \<noteq> []) (HighlightedText (''''::string) (Some []))"
  by (simp add: highlight_list_def HighlightedText_def)

text \<open>
  Claim C10, amended. For every text that is not empty and every list of ranges, or none,
  that satisfy \<open>0 \<le> start \<le> end < length\<close>, the content of every emitted segment is
  not empty and consecutive segments are of different kinds, since each merged range
  starts more than one index after the end of the merged range before it.
\<close>

theorem nonempty_alternating_segments:
  assumes "text \<noteq> []"
    and "list_all (range_in_text text) (highlight_list highlights)"
  shows "list_all (\<lambda>s. content s \<noteq> []) (HighlightedText text highlights)
   \<and> (\<forall>i. Suc i < length (HighlightedText text highlights) \<longrightarrow>
          is_highlighted (HighlightedText text highlights ! i)
          \<noteq> is_highlighted (HighlightedText text highlights ! Suc i))
   \<and> separated (mergedHighlights (highlight_list highlights))"
proof (intro conjI allI impI)
  let ?spans = "HighlightedText_spans (int (length text)) highlights"
  have out: "HighlightedText text highlights = map (render text) ?spans"
    by (rule HighlightedText_render)
  show "list_all (\<lambda>s. content s \<noteq> []) (HighlightedText text highlights)"
    using HighlightedText_spans_nonempty_content[OF assms]
    unfolding out by (simp add: list_all_iff content_render)
  show "separated (mergedHighlights (highlight_list highlights))"
    by (rule separated_merged)
  fix i
  assume "Suc i < length (HighlightedText text highlights)"
  then have i: "Suc i < length ?spans" by (simp add: out)
  then have "follows (?spans ! i) (?spans ! Suc i)"
    using HighlightedText_spans_follows by (rule successively_nth[rotated])
  then have "span_highlighted (?spans ! i) \<noteq> span_highlighted (?spans ! Suc i)"
    by (simp add: follows_def)
  then show "is_highlighted (HighlightedText text highlights ! i)
          \<noteq> is_highlighted (HighlightedText text highlights ! Suc i)"
    using i unfolding out by (simp add: render_highlighted)
qed

theorem nonempty_alternating_segments_witness:
  "''abcdefg'' \<noteq> []
   \<and> list_all (range_in_text ''abcdefg'') (highlight_list (Some [(4, 5), (1, 2)]))
   \<and> HighlightedText ''abcdefg'' (Some [(4, 5), (1, 2)])
       = [Plain ''a'', Highlighted ''bc'', Plain ''d'', Highlighted ''ef'', Plain ''g'']
   \<and> list_all (\<lambda>s. content s \<noteq> []) (HighlightedText ''abcdefg'' (Some [(4, 5), (1, 2)]))
   \<and> is_highlighted (HighlightedText ''abcdefg'' (Some [(4, 5), (1, 2)]) ! 0)
       \<noteq> is_highlighted (HighlightedText ''abcdefg'' (Some [(4, 5), (1, 2)]) ! Suc 0)"
proof -
  have n: "''abcdefg'' \<noteq> []" by simp
  have h: "list_all (range_in_text ''abcdefg'') (highlight_list (Some [(4, 5), (1, 2)]))"
    by (simp add: highlight_list_def range_in_text_def range_ok_def)
  have e: "HighlightedText ''abcdefg'' (Some [(4, 5), (1, 2)])
       = [Plain ''a'', Highlighted ''bc'', Plain ''d'', Highlighted ''ef'', Plain ''g'']"
    by code_simp
  have l: "Suc 0 < length (HighlightedText ''abcdefg'' (Some [(4, 5), (1, 2)]))"
    by (simp add: e)
  show ?thesis
    using n h e l nonempty_alternating_segments[OF n h] by blast
qed

section \<open>The arrays of the caller\<close>

text \<open>
  Claim C9. The component has no side effect on what the caller holds: on every store in
  which \<^verbatim>\<open>highlights\<close> is an array of ranges (or undefined) every object allocated at the
  call is unchanged after it, the array \<^verbatim>\<open>highlights\<close> and each of its ranges among them,
  since the sort works on a copy of the array and the merge loop on copies of the ranges;
  the output is a function of the text and of the values of the ranges alone, so a second
  call with the same text and highlights returns the same output.
\<close>

theorem caller_arrays_unchanged:
  "HighlightedText_heap h text None = Some (HighlightedText text None, h)
   \<and> (read_array h a = Some refs \<longrightarrow> read_ranges h refs = Some hl \<longrightarrow>
        (\<exists>h'. HighlightedText_heap h text (Some a) = Some (HighlightedText text (Some hl), h')
              \<and> take (length h) h' = h
              \<and> read_array h' a = Some refs
              \<and> read_ranges h' refs = Some hl
              \<and> (\<exists>h''. HighlightedText_heap h' text (Some a)
                          = Some (HighlightedText text (Some hl), h''))))"
proof (intro conjI impI)
  show "HighlightedText_heap h text None = Some (HighlightedText text None, h)"
    by (simp add: HighlightedText_heap_def HighlightedText_def)
next
  assume arr: "read_array h a = Some refs" and vals: "read_ranges h refs = Some hl"
  obtain h' where run: "HighlightedText_heap h text (Some a) = Some (HighlightedText text (Some hl), h')"
    and pre: "take (length h) h' = h"
    using HighlightedText_heap_correct[OF arr vals] by auto
  have arr': "read_array h' a = Some refs" using pre arr by (rule read_array_prefix)
  have vals': "read_ranges h' refs = Some hl" using pre vals by (rule read_ranges_prefix)
  obtain h'' where "HighlightedText_heap h' text (Some a) = Some (HighlightedText text (Some hl), h'')"
    using HighlightedText_heap_correct[OF arr' vals'] by auto
  with run pre arr' vals'
  show "\<exists>h'. HighlightedText_heap h text (Some a) = Some (HighlightedText text (Some hl), h')
              \<and> take (length h) h' = h
              \<and> read_array h' a = Some refs
              \<and> read_ranges h' refs = Some hl
              \<and> (\<exists>h''. HighlightedText_heap h' text (Some a)
                          = Some (HighlightedText text (Some hl), h''))"
    by blast
qed

theorem caller_arrays_unchanged_witness:
  "read_array [RangeObj 3 5, RangeObj 0 2, ArrayObj [0, 1]] 2 = Some [0, 1]
   \<and> read_ranges [RangeObj 3 5, RangeObj 0 2, ArrayObj [0, 1]] [0, 1] = Some [(3, 5), (0, 2)]
   \<and> (\<exists>h'. HighlightedText_heap [RangeObj 3 5, RangeObj 0 2, ArrayObj [0, 1]] ''hello world'' (Some 2)
               = Some ([Highlighted ''hello '', Plain ''world''], h')
             \<and> take (length [RangeObj 3 5, RangeObj 0 2, ArrayObj [0, 1]]) h'
                 = [RangeObj 3 5, RangeObj 0 2, ArrayObj [0, 1]])"
proof -
  let ?h = "[RangeObj 3 5, RangeObj 0 2, ArrayObj [0, 1]]"
  have a: "read_array ?h 2 = Some [0, 1]" by (simp add: read_array_def)
  have v: "read_ranges ?h [0, 1] = Some [(3, 5), (0, 2)]" by (simp add: read_range_def)
  have e: "HighlightedText ''hello world'' (Some [(3, 5), (0, 2)])
           = [Highlighted ''hello '', Plain ''world'']" by code_simp
  have "\<exists>h'. HighlightedText_heap ?h ''hello world'' (Some 2)
               = Some (HighlightedText ''hello world'' (Some [(3, 5), (0, 2)]), h')
             \<and> take (length ?h) h' = ?h"
    using a v caller_arrays_unchanged[of ?h "''hello world''" 2 "[0, 1]" "[(3, 5), (0, 2)]"]
    by blast
  then have "\<exists>h'. HighlightedText_heap ?h ''hello world'' (Some 2)
               = Some ([Highlighted ''hello '', Plain ''world''], h')
             \<and> take (length ?h) h' = ?h"
    unfolding e .
  with a v show ?thesis by blast
qed

end
